theory Spec2Isabelle
  imports Main "HOL-Library.Word"
begin

unbundle bit_operations_syntax

section \<open>The bitmap of lib/kernel/bitmap.c\<close>

text \<open>
  The kernel is built for the 32-bit x86 (the single-bit updates are \<^verbatim>\<open>orl\<close>,
  \<^verbatim>\<open>andl\<close> and \<^verbatim>\<open>xorl\<close> instructions), so \<^verbatim>\<open>size_t\<close> and the element type
  \<^verbatim>\<open>unsigned long\<close> are both 32-bit unsigned integers: addition and subtraction
  wrap around, comparison is unsigned.
\<close>

type_synonym size_t = "32 word"
type_synonym elem_type = "32 word"

text \<open>\<^verbatim>\<open>#define ELEM_BITS (sizeof (elem_type) * CHAR_BIT)\<close>\<close>

definition ELEM_BITS :: size_t where
  "ELEM_BITS = 32"

text \<open>
  \<^verbatim>\<open>BITMAP_ERROR\<close> is declared in bitmap.h as \<^verbatim>\<open>SIZE_MAX\<close>, the largest value
  of \<^verbatim>\<open>size_t\<close>.
\<close>

definition BITMAP_ERROR :: size_t where
  "BITMAP_ERROR = - 1"

text \<open>
  A failed \<^verbatim>\<open>ASSERT\<close> panics the kernel: the call does not return a value.
  An access to \<^verbatim>\<open>b->bits[idx]\<close> outside the array is undefined in C; the model
  makes it a fault of its own, so that no result is ever read from beyond the
  array.
\<close>

datatype error = AssertFail | BadAccess

record bitmap =
  bit_cnt :: size_t
  bits :: "elem_type list"

definition elem_idx :: "size_t \<Rightarrow> size_t" where
  "elem_idx bit_idx = bit_idx div ELEM_BITS"

definition bit_mask :: "size_t \<Rightarrow> elem_type" where
  "bit_mask bit_idx = push_bit (unat (bit_idx mod ELEM_BITS)) 1"

text \<open>Reading and writing the element \<^verbatim>\<open>b->bits[idx]\<close>.\<close>

definition elem_read :: "bitmap \<Rightarrow> size_t \<Rightarrow> error + elem_type" where
  "elem_read b idx =
     (if unat idx < length (bits b) then Inr (bits b ! unat idx) else Inl BadAccess)"

definition elem_write :: "bitmap \<Rightarrow> size_t \<Rightarrow> elem_type \<Rightarrow> error + bitmap" where
  "elem_write b idx w =
     (if unat idx < length (bits b) then Inr (b\<lparr>bits := (bits b)[unat idx := w]\<rparr>)
      else Inl BadAccess)"

text \<open>\<^verbatim>\<open>bitmap_mark\<close>: \<^verbatim>\<open>b->bits[idx] |= mask\<close>.\<close>

definition bitmap_mark :: "bitmap \<Rightarrow> size_t \<Rightarrow> error + bitmap" where
  "bitmap_mark b bit_idx =
     (let idx = elem_idx bit_idx; mask = bit_mask bit_idx in
      case elem_read b idx of
        Inl e \<Rightarrow> Inl e
      | Inr w \<Rightarrow> elem_write b idx (w OR mask))"

text \<open>\<^verbatim>\<open>bitmap_reset\<close>: \<^verbatim>\<open>b->bits[idx] &= ~mask\<close>.\<close>

definition bitmap_reset :: "bitmap \<Rightarrow> size_t \<Rightarrow> error + bitmap" where
  "bitmap_reset b bit_idx =
     (let idx = elem_idx bit_idx; mask = bit_mask bit_idx in
      case elem_read b idx of
        Inl e \<Rightarrow> Inl e
      | Inr w \<Rightarrow> elem_write b idx (w AND NOT mask))"

text \<open>\<^verbatim>\<open>bitmap_flip\<close>: \<^verbatim>\<open>b->bits[idx] ^= mask\<close>.\<close>

definition bitmap_flip :: "bitmap \<Rightarrow> size_t \<Rightarrow> error + bitmap" where
  "bitmap_flip b bit_idx =
     (let idx = elem_idx bit_idx; mask = bit_mask bit_idx in
      case elem_read b idx of
        Inl e \<Rightarrow> Inl e
      | Inr w \<Rightarrow> elem_write b idx (w XOR mask))"

definition bitmap_set :: "bitmap \<Rightarrow> size_t \<Rightarrow> bool \<Rightarrow> error + bitmap" where
  "bitmap_set b idx value =
     (if \<not> idx < bit_cnt b then Inl AssertFail
      else if value then bitmap_mark b idx
      else bitmap_reset b idx)"

definition bitmap_test :: "bitmap \<Rightarrow> size_t \<Rightarrow> error + bool" where
  "bitmap_test b idx =
     (if \<not> idx < bit_cnt b then Inl AssertFail
      else case elem_read b (elem_idx idx) of
        Inl e \<Rightarrow> Inl e
      | Inr w \<Rightarrow> Inr (w AND bit_mask idx \<noteq> 0))"

subsection \<open>Ranges of bits\<close>

lemma unat_inc_less: "unat (i + 1) = Suc (unat i)" if "i < n" for i n :: "'a::len word"
proof -
  have "Suc (unat i) \<le> unat n" using that by (simp add: word_less_nat_alt)
  then have "Suc (unat i) < 2 ^ LENGTH('a)" by (rule le_less_trans) (rule unsigned_less)
  then have "unat i + unat (1::'a word) < 2 ^ LENGTH('a)" by simp
  then have "unat (i + 1) = unat i + unat (1::'a word)" by (simp only: unat_add_lem)
  then show ?thesis by simp
qed

lemma unat_inc_measure: "unat n - unat (i + 1) < unat n - unat i" if "i < n" for i n :: "'a::len word"
  using that unat_inc_less [OF that] by (simp add: word_less_nat_alt)

text \<open>The loop \<^verbatim>\<open>for (i = 0; i < cnt; i++) bitmap_set (b, start + i, value);\<close>\<close>

function set_multiple_loop :: "bitmap \<Rightarrow> size_t \<Rightarrow> size_t \<Rightarrow> bool \<Rightarrow> size_t \<Rightarrow> error + bitmap" where
  "set_multiple_loop b start cnt value i =
     (if i < cnt then
        (case bitmap_set b (start + i) value of
           Inl e \<Rightarrow> Inl e
         | Inr b' \<Rightarrow> set_multiple_loop b' start cnt value (i + 1))
      else Inr b)"
  by pat_completeness auto
termination
  by (relation "measure (\<lambda>(b, start, cnt, value, i). unat cnt - unat i)")
     (auto simp: unat_inc_less word_less_nat_alt)

declare set_multiple_loop.simps [simp del]

definition bitmap_set_multiple :: "bitmap \<Rightarrow> size_t \<Rightarrow> size_t \<Rightarrow> bool \<Rightarrow> error + bitmap" where
  "bitmap_set_multiple b start cnt value =
     (if \<not> start \<le> bit_cnt b then Inl AssertFail
      else if \<not> start + cnt \<le> bit_cnt b then Inl AssertFail
      else set_multiple_loop b start cnt value 0)"

definition bitmap_set_all :: "bitmap \<Rightarrow> bool \<Rightarrow> error + bitmap" where
  "bitmap_set_all b value = bitmap_set_multiple b 0 (bit_cnt b) value"

text \<open>
  The loop of \<^verbatim>\<open>bitmap_count\<close>:
  \<^verbatim>\<open>for (i = 0; i < cnt; i++) if (bitmap_test (b, start + i) == value) value_cnt++;\<close>
\<close>

function count_loop :: "bitmap \<Rightarrow> size_t \<Rightarrow> size_t \<Rightarrow> bool \<Rightarrow> size_t \<Rightarrow> size_t \<Rightarrow> error + size_t" where
  "count_loop b start cnt value i value_cnt =
     (if i < cnt then
        (case bitmap_test b (start + i) of
           Inl e \<Rightarrow> Inl e
         | Inr t \<Rightarrow>
             if t = value then count_loop b start cnt value (i + 1) (value_cnt + 1)
             else count_loop b start cnt value (i + 1) value_cnt)
      else Inr value_cnt)"
  by pat_completeness auto
termination
  by (relation "measure (\<lambda>(b, start, cnt, value, i, value_cnt). unat cnt - unat i)")
     (auto simp: unat_inc_less word_less_nat_alt)

declare count_loop.simps [simp del]

definition bitmap_count :: "bitmap \<Rightarrow> size_t \<Rightarrow> size_t \<Rightarrow> bool \<Rightarrow> error + size_t" where
  "bitmap_count b start cnt value =
     (if \<not> start \<le> bit_cnt b then Inl AssertFail
      else if \<not> start + cnt \<le> bit_cnt b then Inl AssertFail
      else count_loop b start cnt value 0 0)"

text \<open>
  The loop of \<^verbatim>\<open>bitmap_contains\<close>:
  \<^verbatim>\<open>for (i = 0; i < cnt; i++) if (bitmap_test (b, start + i) == value) return true;\<close>
\<close>

function contains_loop :: "bitmap \<Rightarrow> size_t \<Rightarrow> size_t \<Rightarrow> bool \<Rightarrow> size_t \<Rightarrow> error + bool" where
  "contains_loop b start cnt value i =
     (if i < cnt then
        (case bitmap_test b (start + i) of
           Inl e \<Rightarrow> Inl e
         | Inr t \<Rightarrow>
             if t = value then Inr True
             else contains_loop b start cnt value (i + 1))
      else Inr False)"
  by pat_completeness auto
termination
  by (relation "measure (\<lambda>(b, start, cnt, value, i). unat cnt - unat i)")
     (auto simp: unat_inc_less word_less_nat_alt)

declare contains_loop.simps [simp del]

definition bitmap_contains :: "bitmap \<Rightarrow> size_t \<Rightarrow> size_t \<Rightarrow> bool \<Rightarrow> error + bool" where
  "bitmap_contains b start cnt value =
     (if \<not> start \<le> bit_cnt b then Inl AssertFail
      else if \<not> start + cnt \<le> bit_cnt b then Inl AssertFail
      else contains_loop b start cnt value 0)"

text \<open>\<^verbatim>\<open>bitmap_any\<close>, \<^verbatim>\<open>bitmap_none\<close> and \<^verbatim>\<open>bitmap_all\<close> negate or pass on
  what \<^verbatim>\<open>bitmap_contains\<close> returns.\<close>

definition bitmap_any :: "bitmap \<Rightarrow> size_t \<Rightarrow> size_t \<Rightarrow> error + bool" where
  "bitmap_any b start cnt = bitmap_contains b start cnt True"

definition bitmap_none :: "bitmap \<Rightarrow> size_t \<Rightarrow> size_t \<Rightarrow> error + bool" where
  "bitmap_none b start cnt =
     (case bitmap_contains b start cnt True of Inl e \<Rightarrow> Inl e | Inr c \<Rightarrow> Inr (\<not> c))"

definition bitmap_all :: "bitmap \<Rightarrow> size_t \<Rightarrow> size_t \<Rightarrow> error + bool" where
  "bitmap_all b start cnt =
     (case bitmap_contains b start cnt False of Inl e \<Rightarrow> Inl e | Inr c \<Rightarrow> Inr (\<not> c))"

section \<open>Finding set or unset bits: \<^verbatim>\<open>bitmap_scan\<close>\<close>

text \<open>
  The function-local statics of \<^verbatim>\<open>bitmap_scan\<close>: they are initialised to 0 and
  keep their values from one call to the next, so a call takes them and returns
  them updated.

  The variables \<^verbatim>\<open>last\<close>, \<^verbatim>\<open>size\<close> and \<^verbatim>\<open>max\<close> of the source are written \<open>last'\<close>,
  \<open>size'\<close> and \<open>max'\<close>, and a loop reads the static \<^verbatim>\<open>check_size\<close> as its argument
  \<open>check_size'\<close>: the plain names are taken.
\<close>

record statics =
  latest :: size_t
  check_cnt :: size_t
  check_size :: size_t

definition statics_init :: statics where
  "statics_init = \<lparr>latest = 0, check_cnt = 0, check_size = 0\<rparr>"

subsection \<open>First fit and next fit\<close>

lemma bitmap_contains_True_less:
  "bitmap_contains b i cnt v = Inr True \<Longrightarrow> i < bit_cnt b"
  by (simp add: bitmap_contains_def contains_loop.simps [of b i cnt v 0] bitmap_test_def
      split: if_splits sum.splits)

text \<open>
  The three search loops of the first-fit and next-fit branches have one shape,
  \<^verbatim>\<open>for (i = from; i <= to; i++) if (!bitmap_contains (b, i, cnt, !value)) ...\<close>
  and differ in their bounds only. The result is \<open>Some i\<close> when the body is
  entered at \<open>i\<close> (the function then returns \<open>i\<close>) and \<open>None\<close> when the loop runs
  out.
\<close>

function fit_loop :: "bitmap \<Rightarrow> size_t \<Rightarrow> bool \<Rightarrow> size_t \<Rightarrow> size_t \<Rightarrow> error + size_t option" where
  "fit_loop b cnt value hi i =
     (if i \<le> hi then
        (case bitmap_contains b i cnt (\<not> value) of
           Inl e \<Rightarrow> Inl e
         | Inr c \<Rightarrow>
             if \<not> c then Inr (Some i)
             else fit_loop b cnt value hi (i + 1))
      else Inr None)"
  by pat_completeness auto
termination
proof (relation "measure (\<lambda>(b, cnt, value, hi, i). unat (bit_cnt b) - unat i)")
  show "wf (measure (\<lambda>(b, cnt, value, hi, i). unat (bit_cnt b) - unat i))"
    by simp
next
  fix b :: bitmap and cnt :: size_t and "value" :: bool and hi i :: size_t and c :: bool
  assume "bitmap_contains b i cnt (\<not> value) = Inr c" and "\<not> \<not> c"
  then have "i < bit_cnt b"
    using bitmap_contains_True_less [of b i cnt "\<not> value"] by simp
  then show "((b, cnt, value, hi, i + 1), (b, cnt, value, hi, i))
      \<in> measure (\<lambda>(b, cnt, value, hi, i). unat (bit_cnt b) - unat i)"
    by (simp add: unat_inc_less [of i "bit_cnt b"] word_less_nat_alt)
qed

declare fit_loop.simps [simp del]

definition first_fit :: "bitmap \<Rightarrow> size_t \<Rightarrow> size_t \<Rightarrow> bool \<Rightarrow> size_t \<Rightarrow> error + size_t" where
  "first_fit b start cnt value last' =
     (case fit_loop b cnt value last' start of
        Inl e \<Rightarrow> Inl e
      | Inr (Some i) \<Rightarrow> Inr i
      | Inr None \<Rightarrow> Inr BITMAP_ERROR)"

definition next_fit ::
  "bitmap \<Rightarrow> size_t \<Rightarrow> size_t \<Rightarrow> bool \<Rightarrow> size_t \<Rightarrow> statics \<Rightarrow> error + size_t \<times> statics" where
  "next_fit b start cnt value last' st =
     (case fit_loop b cnt value last' (latest st) of
        Inl e \<Rightarrow> Inl e
      | Inr (Some i) \<Rightarrow> Inr (i, st\<lparr>latest := i\<rparr>)
      | Inr None \<Rightarrow>
          (case fit_loop b cnt value (latest st) start of
             Inl e \<Rightarrow> Inl e
           | Inr (Some i) \<Rightarrow> Inr (i, st\<lparr>latest := i\<rparr>)
           | Inr None \<Rightarrow> Inr (BITMAP_ERROR, st)))"

subsection \<open>Best fit\<close>

text \<open>
  The inner loop of the best-fit branch, entered with a clear bit at \<open>i\<close>:
  \<^verbatim>\<open>while (true) { i++; if (i == last) break; if (bitmap_test (b, i) == true) break; }\<close>
  It returns the value of \<open>i\<close> at the break.
\<close>

function best_fit_skip :: "bitmap \<Rightarrow> size_t \<Rightarrow> size_t \<Rightarrow> error + size_t" where
  "best_fit_skip b last' i =
     (let i = i + 1 in
      if i = last' then Inr i
      else case bitmap_test b i of
        Inl e \<Rightarrow> Inl e
      | Inr t \<Rightarrow> if t = True then Inr i else best_fit_skip b last' i)"
  by pat_completeness auto
termination
proof (relation "measure (\<lambda>(b, last', i). unat (bit_cnt b) - unat (i + 1))")
  show "wf (measure (\<lambda>(b, last', i). unat (bit_cnt b) - unat (i + 1)))"
    by simp
next
  fix b :: bitmap and last' i x :: size_t and t :: bool
  assume x: "x = i + 1" and "bitmap_test b x = Inr t"
  then have "x < bit_cnt b"
    by (simp add: bitmap_test_def split: if_splits)
  then have "unat (bit_cnt b) - unat (x + 1) < unat (bit_cnt b) - unat x"
    by (rule unat_inc_measure)
  then show "((b, last', x), (b, last', i)) \<in> measure (\<lambda>(b, last', i). unat (bit_cnt b) - unat (i + 1))"
    unfolding x by simp
qed

declare best_fit_skip.simps [simp del]

lemma best_fit_skip_bounds:
  "best_fit_skip b last' i = Inr i' \<Longrightarrow> i < last' \<Longrightarrow> i < i' \<and> i' \<le> last'"
proof (induction b last' i rule: best_fit_skip.induct)
  case (1 b last' i)
  from \<open>i < last'\<close> have step: "unat (i + 1) = Suc (unat i)"
    by (rule unat_inc_less)
  show ?case
  proof (cases "i + 1 = last'")
    case True
    with "1.prems" step show ?thesis
      by (simp add: best_fit_skip.simps [of b last' i] word_less_nat_alt word_le_nat_alt)
  next
    case False
    with \<open>i < last'\<close> step have lt: "i + 1 < last'"
      by (metis Suc_leI le_neq_implies_less word_less_nat_alt word_unat_eq_iff)
    from "1.prems"(1) False obtain t where t: "bitmap_test b (i + 1) = Inr t"
      by (simp add: best_fit_skip.simps [of b last' i] Let_def split: sum.splits)
    show ?thesis
    proof (cases t)
      case True
      with "1.prems"(1) False t have "i' = i + 1"
        by (simp add: best_fit_skip.simps [of b last' i] Let_def)
      with lt step show ?thesis
        by (simp add: word_less_nat_alt word_le_nat_alt)
    next
      case f: False
      with "1.prems"(1) False t have "best_fit_skip b last' (i + 1) = Inr i'"
        by (simp add: best_fit_skip.simps [of b last' i] Let_def)
      with "1.IH" [OF refl False t] f lt have "i + 1 < i' \<and> i' \<le> last'"
        by simp
      with step show ?thesis
        by (simp add: word_less_nat_alt word_le_nat_alt)
    qed
  qed
qed

lemma best_fit_skip_measure:
  "best_fit_skip b last' i = Inr i' \<Longrightarrow> \<not> last' \<le> i \<Longrightarrow> unat last' - unat i' < unat last' - unat i"
  using best_fit_skip_bounds [of b last' i i']
  unfolding word_less_nat_alt word_le_nat_alt not_le by arith

text \<open>
  The outer loop of the best-fit branch. \<open>idx\<close> and \<open>size'\<close> are the best position
  and its measured size so far; \<^verbatim>\<open>temp_i\<close> and \<^verbatim>\<open>temp_size\<close> are assigned before they
  are read in every pass, so they are local to one pass. The argument
  \<^verbatim>\<open>value\<close> of the scan is not read in this branch.
\<close>

function best_fit_loop ::
  "bitmap \<Rightarrow> size_t \<Rightarrow> size_t \<Rightarrow> size_t \<Rightarrow> size_t \<Rightarrow> size_t \<Rightarrow> error + size_t" where
  "best_fit_loop b cnt last' i idx size' =
     (if i \<ge> last' then
        (if idx = 99999999 then Inr BITMAP_ERROR else Inr idx)
      else case bitmap_test b i of
        Inl e \<Rightarrow> Inl e
      | Inr t \<Rightarrow>
          if t = False then
            (let temp_i = i in
             case best_fit_skip b last' i of
               Inl e \<Rightarrow> Inl e
             | Inr i \<Rightarrow>
                 (case bitmap_count b temp_i (i - 1 - temp_i) False of
                    Inl e \<Rightarrow> Inl e
                  | Inr temp_size \<Rightarrow>
                      if cnt \<le> temp_size then
                        (if size' = 0 then best_fit_loop b cnt last' i temp_i temp_size
                         else if size' - cnt > temp_size - cnt
                           then best_fit_loop b cnt last' i temp_i temp_size
                         else best_fit_loop b cnt last' i idx size')
                      else best_fit_loop b cnt last' i idx size'))
          else best_fit_loop b cnt last' (i + 1) idx size')"
  by pat_completeness auto
termination
  by (relation "measure (\<lambda>(b, cnt, last', i, idx, size'). unat last' - unat i)")
     (simp_all add: best_fit_skip_measure unat_inc_measure not_le)

declare best_fit_loop.simps [simp del]

definition best_fit :: "bitmap \<Rightarrow> size_t \<Rightarrow> size_t \<Rightarrow> size_t \<Rightarrow> error + size_t" where
  "best_fit b start cnt last' = best_fit_loop b cnt last' start 99999999 0"

subsection \<open>Buddy system\<close>

text \<open>
  The innermost loop of the buddy branch, which counts the set bits from \<open>j\<close> on
  into \<open>offset\<close>:
  \<^verbatim>\<open>while (true) { if (j >= max + check_size) return BITMAP_ERROR;
  if (bitmap_test (b, j) == true) offset++; else break; j++; }\<close>
  The result is \<open>None\<close> when the scan returns \<^verbatim>\<open>BITMAP_ERROR\<close> from inside the
  loop, and \<open>Some offset\<close> at the break.
\<close>

function occupied_run ::
  "bitmap \<Rightarrow> size_t \<Rightarrow> size_t \<Rightarrow> size_t \<Rightarrow> size_t \<Rightarrow> error + size_t option" where
  "occupied_run b max' check_size' j offset =
     (if j \<ge> max' + check_size' then Inr None
      else case bitmap_test b j of
        Inl e \<Rightarrow> Inl e
      | Inr t \<Rightarrow>
          if t = True then occupied_run b max' check_size' (j + 1) (offset + 1)
          else Inr (Some offset))"
  by pat_completeness auto
termination
  by (relation "measure (\<lambda>(b, max', check_size', j, offset). unat (max' + check_size') - unat j)")
     (simp_all add: unat_inc_measure not_le)

declare occupied_run.simps [simp del]

text \<open>
  The chain of comparisons that replaces \<open>offset\<close> by a power of two; \<open>None\<close> when
  \<^verbatim>\<open>offset > 256\<close>, where the scan returns \<^verbatim>\<open>BITMAP_ERROR\<close>.
\<close>

definition offset_ladder :: "size_t \<Rightarrow> size_t option" where
  "offset_ladder offset =
     (if offset > 256 then None
      else if offset > 128 then Some 256
      else if offset > 64 then Some 128
      else if offset > 32 then Some 64
      else if offset > 16 then Some 32
      else if offset > 8 then Some 16
      else if offset > 4 then Some 8
      else if offset > 2 then Some 4
      else if offset > 1 then Some 2
      else Some 1)"

text \<open>
  The walk: the \<^verbatim>\<open>while (true)\<close> loop inside \<^verbatim>\<open>if (cnt > bound)\<close>. It has no
  \<^verbatim>\<open>break\<close>, it is left by \<^verbatim>\<open>return\<close> only. \<open>offset\<close> is declared outside all the
  loops and is never reset, so it is carried from one pass to the next. The two
  \<^verbatim>\<open>printf\<close> calls before \<^verbatim>\<open>return i\<close> write to the console and change nothing
  else. A walk that never returns has the value \<open>None\<close>.
\<close>

partial_function (option) buddy_walk ::
  "bitmap \<Rightarrow> bool \<Rightarrow> size_t \<Rightarrow> size_t \<Rightarrow> size_t \<Rightarrow> size_t \<Rightarrow> size_t \<Rightarrow> (error + size_t) option" where
  "buddy_walk b value max' check_size' bound i offset =
     (if i \<ge> max' + check_size' then Some (Inr BITMAP_ERROR)
      else case bitmap_test b i of
        Inl e \<Rightarrow> Some (Inl e)
      | Inr t \<Rightarrow>
          if t = True then
            (case occupied_run b max' check_size' i offset of
               Inl e \<Rightarrow> Some (Inl e)
             | Inr None \<Rightarrow> Some (Inr BITMAP_ERROR)
             | Inr (Some offset) \<Rightarrow>
                 (case offset_ladder offset of
                    None \<Rightarrow> Some (Inr BITMAP_ERROR)
                  | Some offset \<Rightarrow>
                      if offset > bound * 2
                      then buddy_walk b value max' check_size' bound (i + offset) offset
                      else buddy_walk b value max' check_size' bound (i + bound * 2) offset))
          else if bound \<noteq> 0 then
            (case bitmap_contains b i (bound * 2) (\<not> value) of
               Inl e \<Rightarrow> Some (Inl e)
             | Inr c \<Rightarrow>
                 if \<not> c then Some (Inr i)
                 else buddy_walk b value max' check_size' bound (i + bound * 2) offset)
          else
            (case bitmap_test b i of
               Inl e \<Rightarrow> Some (Inl e)
             | Inr t \<Rightarrow>
                 if t = False then Some (Inr i)
                 else buddy_walk b value max' check_size' bound (i + 1) offset))"

declare buddy_walk.simps [code]

text \<open>
  The outermost \<^verbatim>\<open>while (true)\<close> loop: it halves \<open>bound\<close> until \<^verbatim>\<open>cnt > bound\<close>
  and then enters the walk, from which the scan returns.
\<close>

partial_function (option) buddy_bound ::
  "bitmap \<Rightarrow> size_t \<Rightarrow> bool \<Rightarrow> size_t \<Rightarrow> size_t \<Rightarrow> size_t \<Rightarrow> size_t \<Rightarrow> size_t \<Rightarrow> (error + size_t) option" where
  "buddy_bound b cnt value max' check_size' bound i offset =
     (let bound = bound div 2 in
      if cnt > bound then buddy_walk b value max' check_size' bound i offset
      else buddy_bound b cnt value max' check_size' bound i offset)"

declare buddy_bound.simps [code]

text \<open>
  Where the walk starts:
  \<^verbatim>\<open>if (check_cnt < 3) { i = 0; check_cnt++; } else { i = check_size; }\<close>
\<close>

definition buddy_start :: "statics \<Rightarrow> size_t \<times> statics" where
  "buddy_start st =
     (if check_cnt st < 3 then (0, st\<lparr>check_cnt := check_cnt st + 1\<rparr>)
      else (check_size st, st))"

definition buddy_system :: "bitmap \<Rightarrow> size_t \<Rightarrow> bool \<Rightarrow> statics \<Rightarrow> (error + size_t \<times> statics) option" where
  "buddy_system b cnt value st =
     (let max' = 512; bound = 512; offset = 0; (i, st) = buddy_start st in
      if cnt > max' then Some (Inr (BITMAP_ERROR, st))
      else case buddy_bound b cnt value max' (check_size st) bound i offset of
        None \<Rightarrow> None
      | Some (Inl e) \<Rightarrow> Some (Inl e)
      | Some (Inr r) \<Rightarrow> Some (Inr (r, st)))"

subsection \<open>The scan\<close>

text \<open>
  The update of the statics at the head of \<^verbatim>\<open>bitmap_scan\<close>, before the strategy
  is looked at: \<^verbatim>\<open>if (check_cnt < 3) check_size = check_size + cnt;\<close>
\<close>

definition scan_enter :: "statics \<Rightarrow> size_t \<Rightarrow> statics" where
  "scan_enter st cnt =
     (if check_cnt st < 3 then st\<lparr>check_size := check_size st + cnt\<rparr> else st)"

text \<open>
  \<^verbatim>\<open>pallocator\<close> is a global declared in threads/palloc.h; the scan only compares
  it with 0, 1, 2 and 3, so it is an argument here. The result is \<open>None\<close> when
  the call never returns, \<open>Some (Inl e)\<close> when it panics, and otherwise the
  returned index with the statics as the call leaves them.
\<close>

definition bitmap_scan ::
  "bitmap \<Rightarrow> size_t \<Rightarrow> size_t \<Rightarrow> bool \<Rightarrow> int \<Rightarrow> statics \<Rightarrow> (error + size_t \<times> statics) option" where
  "bitmap_scan b start cnt value pallocator st =
     (if \<not> start \<le> bit_cnt b then Some (Inl AssertFail)
      else
        let st = scan_enter st cnt in
        if cnt \<le> bit_cnt b then
          (let last' = bit_cnt b - cnt in
           if pallocator = 0 then
             (case first_fit b start cnt value last' of
                Inl e \<Rightarrow> Some (Inl e)
              | Inr i \<Rightarrow> Some (Inr (i, st)))
           else if pallocator = 1 then Some (next_fit b start cnt value last' st)
           else if pallocator = 2 then
             (case best_fit b start cnt last' of
                Inl e \<Rightarrow> Some (Inl e)
              | Inr i \<Rightarrow> Some (Inr (i, st)))
           else if pallocator = 3 then buddy_system b cnt value st
           else Some (Inr (BITMAP_ERROR, st)))
        else Some (Inr (BITMAP_ERROR, st)))"

definition bitmap_scan_and_flip ::
  "bitmap \<Rightarrow> size_t \<Rightarrow> size_t \<Rightarrow> bool \<Rightarrow> int \<Rightarrow> statics
    \<Rightarrow> (error + size_t \<times> bitmap \<times> statics) option" where
  "bitmap_scan_and_flip b start cnt value pallocator st =
     (case bitmap_scan b start cnt value pallocator st of
        None \<Rightarrow> None
      | Some (Inl e) \<Rightarrow> Some (Inl e)
      | Some (Inr (idx, st)) \<Rightarrow>
          if idx \<noteq> BITMAP_ERROR then
            (case bitmap_set_multiple b idx cnt (\<not> value) of
               Inl e \<Rightarrow> Some (Inl e)
             | Inr b \<Rightarrow> Some (Inr (idx, b, st)))
          else Some (Inr (idx, b, st)))"

section \<open>Notions used to state the properties\<close>

text \<open>
  A bitmap as \<^verbatim>\<open>bitmap_create\<close> and \<^verbatim>\<open>bitmap_create_in_buf\<close> make it: the array
  \<^verbatim>\<open>bits\<close> has room for \<^verbatim>\<open>bit_cnt\<close> bits.
\<close>

definition wf_bitmap :: "bitmap \<Rightarrow> bool" where
  "wf_bitmap b = (unat (bit_cnt b) \<le> 32 * length (bits b))"

text \<open>
  The bit numbered \<open>n\<close>: bit \<open>n mod 32\<close> of element \<open>n div 32\<close> (``if bit 0 in an
  element represents bit K in the bitmap, then bit 1 in the element represents
  bit K+1 in the bitmap'').
\<close>

definition bit_at :: "bitmap \<Rightarrow> nat \<Rightarrow> bool" where
  "bit_at b n = bit (bits b ! (n div 32)) (n mod 32)"

text \<open>The \<open>cnt\<close> bits from \<open>i\<close> on all have the value \<open>value\<close>.\<close>

definition all_equal :: "bitmap \<Rightarrow> size_t \<Rightarrow> size_t \<Rightarrow> bool \<Rightarrow> bool" where
  "all_equal b i cnt value = list_all (\<lambda>k. bit_at b (unat i + k) = value) [0..<unat cnt]"





text \<open>The values \<open>bound\<close> takes before it is halved to 0.\<close>

definition buddy_bounds :: "size_t set" where
  "buddy_bounds = {512, 256, 128, 64, 32, 16, 8, 4, 2, 1}"

section \<open>Empty ranges\<close>

text \<open>
  C10. For every bitmap, every \<open>start \<le> bit_cnt b\<close> and every value, the range
  predicates on the empty range are vacuous: \<^verbatim>\<open>bitmap_contains\<close> and \<^verbatim>\<open>bitmap_any\<close>
  return false, \<^verbatim>\<open>bitmap_none\<close> and \<^verbatim>\<open>bitmap_all\<close> return true, and
  \<^verbatim>\<open>bitmap_count\<close> returns 0. None of them panics.
\<close>

theorem empty_range_predicates:
  assumes "start \<le> bit_cnt b"
  shows "bitmap_contains b start 0 value = Inr False
    \<and> bitmap_any b start 0 = Inr False
    \<and> bitmap_none b start 0 = Inr True
    \<and> bitmap_all b start 0 = Inr True
    \<and> bitmap_count b start 0 value = Inr 0"
  using assms
  by (simp add: bitmap_contains_def contains_loop.simps [of b start 0 _ 0]
      bitmap_any_def bitmap_none_def bitmap_all_def
      bitmap_count_def count_loop.simps [of b start 0 "value" 0 0])

theorem empty_range_predicates_witness:
  "(7 :: size_t) \<le> bit_cnt \<lparr>bit_cnt = 20, bits = [0xFFC1F]\<rparr>
    \<and> bitmap_contains \<lparr>bit_cnt = 20, bits = [0xFFC1F]\<rparr> 7 0 False = Inr False
    \<and> bitmap_any \<lparr>bit_cnt = 20, bits = [0xFFC1F]\<rparr> 7 0 = Inr False
    \<and> bitmap_none \<lparr>bit_cnt = 20, bits = [0xFFC1F]\<rparr> 7 0 = Inr True
    \<and> bitmap_all \<lparr>bit_cnt = 20, bits = [0xFFC1F]\<rparr> 7 0 = Inr True
    \<and> bitmap_count \<lparr>bit_cnt = 20, bits = [0xFFC1F]\<rparr> 7 0 False = Inr 0"
proof -
  have h: "(7 :: size_t) \<le> bit_cnt \<lparr>bit_cnt = 20, bits = [0xFFC1F]\<rparr>"
    by simp
  from empty_range_predicates [OF h, of False] h show ?thesis
    by simp
qed

section \<open>Best fit does not read \<^verbatim>\<open>value\<close>\<close>

text \<open>
  C9. Under the best-fit strategy (\<^verbatim>\<open>pallocator == 2\<close>) the scan returns the same
  result, and leaves the same statics, for \<^verbatim>\<open>value == true\<close> and
  \<^verbatim>\<open>value == false\<close>: the branch tests the bits against the constants
  \<^verbatim>\<open>false\<close> and \<^verbatim>\<open>true\<close> and never reads \<^verbatim>\<open>value\<close>.
\<close>

theorem best_fit_ignores_value:
  "bitmap_scan b start cnt True 2 st = bitmap_scan b start cnt False 2 st"
  by (simp add: bitmap_scan_def Let_def)

section \<open>A count of zero\<close>

lemma first_fit_zero_count:
  "start \<le> bit_cnt b \<Longrightarrow> bitmap_scan b start 0 value 0 st = Some (Inr (start, st))"
  by (simp add: bitmap_scan_def first_fit_def fit_loop.simps [of b 0 "value" "bit_cnt b" start]
      bitmap_contains_def contains_loop.simps [of b start 0 "\<not> value" 0] scan_enter_def)

lemma buddy_bound_Some_cnt:
  assumes "buddy_bound b cnt value max' check_size' bound i offset = Some y"
  shows "cnt \<noteq> 0"
  by (rule buddy_bound.raw_induct
       [where P = "\<lambda>b cnt value max' check_size' bound i offset y. cnt \<noteq> 0", OF _ assms])
     (auto simp: Let_def split: if_splits)

lemma buddy_bound_zero: "buddy_bound b 0 value max' check_size' bound i offset = None"
  using buddy_bound_Some_cnt [of b 0 "value" max' check_size' bound i offset]
  by (cases "buddy_bound b 0 value max' check_size' bound i offset") auto

text \<open>
  C1 says that a scan for zero bits returns index 0 under every strategy. The
  first-fit scan returns \<open>start\<close> instead (\<open>first_fit_zero_count\<close>): on a 20-bit
  bitmap, \<^verbatim>\<open>bitmap_scan (b, 7, 0, false)\<close> returns 7. The best-fit scan of a
  bitmap with no clear bit returns \<^verbatim>\<open>BITMAP_ERROR\<close>.
\<close>

theorem scan_zero_count_not_zero:
  "bitmap_scan \<lparr>bit_cnt = 20, bits = [0xFFC1F]\<rparr> 7 0 False 0 statics_init
     = Some (Inr (7, statics_init))
   \<and> bitmap_scan \<lparr>bit_cnt = 20, bits = [0xFFFFF]\<rparr> 0 0 False 2 statics_init
     = Some (Inr (BITMAP_ERROR, statics_init))"
  by code_simp

text \<open>Under the other strategies every loop of the scan ends: it returns or panics.\<close>

lemma scan_returns_unless_buddy:
  "pallocator \<noteq> 3 \<Longrightarrow> bitmap_scan b start cnt value pallocator st \<noteq> None"
  by (simp add: bitmap_scan_def Let_def split: sum.splits)

text \<open>
  C4 says that every scan returns. Under the buddy strategy
  (\<^verbatim>\<open>pallocator == 3\<close>) a scan for zero bits never returns: \<^verbatim>\<open>cnt > bound\<close> is
  false for every \<open>bound\<close>, so the outermost loop halves \<open>bound\<close> for ever.
\<close>

theorem buddy_zero_count_diverges:
  "bitmap_scan b start 0 value 3 st
     = (if start \<le> bit_cnt b then None else Some (Inl AssertFail))"
  by (simp add: bitmap_scan_def buddy_system_def buddy_bound_zero Let_def split: prod.splits)

section \<open>Best fit measures a run one bit short\<close>

text \<open>
  C2 says that the best-fit scan returns the run with the least waste, and that
  with clear runs of length 4 at offset 0 and of length 2 at offset 10 a scan
  for 2 bits returns 10. The scan returns 0: the size of a run from \<open>temp_i\<close> to
  \<open>i\<close> is taken as \<^verbatim>\<open>bitmap_count (b, temp_i, i-1-temp_i, false)\<close>, one less than
  its length \<open>i - temp_i\<close>, so the run at offset 10 (the skip stops at 12) is
  measured as 1 and does not qualify.
\<close>

theorem best_fit_example_returns_0:
  "bitmap_scan \<lparr>bit_cnt = 20, bits = [0xFF3F0]\<rparr> 0 2 False 2 statics_init
     = Some (Inr (0, \<lparr>latest = 0, check_cnt = 0, check_size = 2\<rparr>))
   \<and> best_fit_skip \<lparr>bit_cnt = 20, bits = [0xFF3F0]\<rparr> 18 10 = Inr 12
   \<and> bitmap_count \<lparr>bit_cnt = 20, bits = [0xFF3F0]\<rparr> 10 (12 - 1 - 10) False = Inr 1"
  by code_simp

section \<open>Next fit with a cursor beyond the last start index\<close>

text \<open>
  C7 says that the next-fit scan returns \<^verbatim>\<open>BITMAP_ERROR\<close> when both searches
  fail. The second search runs up to \<open>latest\<close>, which an earlier scan for fewer
  bits can leave above \<open>last\<close>; there \<^verbatim>\<open>bitmap_contains\<close> fails its assertion
  \<^verbatim>\<open>start + cnt <= b->bit_cnt\<close>. On a 10-bit bitmap whose first 8 bits are set, a
  next-fit \<^verbatim>\<open>bitmap_scan_and_flip (b, 0, 2, false)\<close> returns 8 and leaves
  \<open>latest = 8\<close>; the next-fit scan for 5 bits that follows panics.
\<close>

theorem next_fit_wrap_panics:
  "bitmap_scan_and_flip \<lparr>bit_cnt = 10, bits = [0xFF]\<rparr> 0 2 False 1 statics_init
     = Some (Inr (8, \<lparr>bit_cnt = 10, bits = [0x3FF]\<rparr>,
         \<lparr>latest = 8, check_cnt = 0, check_size = 2\<rparr>))
   \<and> bitmap_scan \<lparr>bit_cnt = 10, bits = [0x3FF]\<rparr> 0 5 False 1
         \<lparr>latest = 8, check_cnt = 0, check_size = 2\<rparr>
     = Some (Inl AssertFail)"
  by code_simp

section \<open>The buddy walk carries \<open>offset\<close> from one occupied run to the next\<close>

text \<open>
  C5 says that at every occupied position the walk measures the occupied run
  that starts there, rounds it up to a power of two and advances by the larger
  of that and \<open>bound * 2\<close>. \<open>offset\<close> is not reset before a run is counted, so
  from the second run on the count starts at the rounded length of the run
  before. With bits 0, 2 and 4 set and \<open>cnt = 2\<close> (\<open>bound = 1\<close>) the runs at 0, 2
  and 4 all have length 1; the walk advances by 2, by 2 and then by 4 (the run
  at 4 is counted from 2 to 3 and rounded to 4), passes the clear bits 6 and 7
  and returns 8.
\<close>

theorem buddy_offset_carried_over:
  "bitmap_scan \<lparr>bit_cnt = 16, bits = [0x15]\<rparr> 0 2 False 3 statics_init
     = Some (Inr (8, \<lparr>latest = 0, check_cnt = 1, check_size = 2\<rparr>))
   \<and> occupied_run \<lparr>bit_cnt = 16, bits = [0x15]\<rparr> 512 2 4 0 = Inr (Some 1)
   \<and> occupied_run \<lparr>bit_cnt = 16, bits = [0x15]\<rparr> 512 2 4 2 = Inr (Some 3)
   \<and> offset_ladder 3 = Some 4
   \<and> bitmap_contains \<lparr>bit_cnt = 16, bits = [0x15]\<rparr> 6 2 True = Inr False"
  by code_simp

section \<open>The bits of the array\<close>

subsection \<open>Testing bits\<close>

lemma unat_elem_idx: "unat (elem_idx idx) = unat idx div 32"
  by (simp add: elem_idx_def ELEM_BITS_def unat_div)

lemma bit_mask_eq: "bit_mask idx = push_bit (unat idx mod 32) 1"
  by (simp add: bit_mask_def ELEM_BITS_def unat_mod)

lemma elem_idx_in_range:
  "wf_bitmap b \<Longrightarrow> idx < bit_cnt b \<Longrightarrow> unat (elem_idx idx) < length (bits b)"
  unfolding unat_elem_idx wf_bitmap_def word_less_nat_alt by (simp add: less_mult_imp_div_less mult.commute)

lemma bitmap_test_bit_at:
  "wf_bitmap b \<Longrightarrow> idx < bit_cnt b \<Longrightarrow> bitmap_test b idx = Inr (bit_at b (unat idx))"
  using elem_idx_in_range [of b idx]
  by (simp add: bitmap_test_def elem_read_def bit_at_def unat_elem_idx bit_mask_eq
      bit_iff_and_push_bit_not_eq_0)

lemma unat_add_in_range:
  "unat (a + b) = unat a + unat b" if "unat a + unat b \<le> unat n" for a b n :: "'a::len word"
proof -
  have "unat a + unat b < 2 ^ LENGTH('a)"
    using that by (rule le_less_trans) (rule unsigned_less)
  then show ?thesis by (simp only: unat_add_lem)
qed

lemma contains_loop_spec:
  assumes "wf_bitmap b" and "unat start + unat cnt \<le> unat (bit_cnt b)"
  shows "contains_loop b start cnt v i
    = Inr (\<exists>k. unat i \<le> k \<and> k < unat cnt \<and> bit_at b (unat start + k) = v)"
  using assms
proof (induction b start cnt v i rule: contains_loop.induct)
  case (1 b start cnt v i)
  show ?case
  proof (cases "i < cnt")
    case False
    then have "unat cnt \<le> unat i" by (simp add: word_less_nat_alt)
    with False show ?thesis
      by (simp add: contains_loop.simps [of b start cnt v i])
  next
    case True
    then have ui: "unat i < unat cnt" by (simp add: word_less_nat_alt)
    with "1.prems"(2) have sum: "unat (start + i) = unat start + unat i"
      by (intro unat_add_in_range [of start i "bit_cnt b"]) simp
    with ui "1.prems"(2) have "start + i < bit_cnt b"
      by (simp add: word_less_nat_alt)
    with "1.prems"(1) sum have t: "bitmap_test b (start + i) = Inr (bit_at b (unat start + unat i))"
      by (simp add: bitmap_test_bit_at)
    show ?thesis
    proof (cases "bit_at b (unat start + unat i) = v")
      case eq: True
      with True t ui show ?thesis
        by (auto simp: contains_loop.simps [of b start cnt v i])
    next
      case ne: False
      from True have step: "unat (i + 1) = Suc (unat i)" by (rule unat_inc_less)
      from "1.IH" [OF True t ne "1.prems"] 
      have "contains_loop b start cnt v (i + 1)
        = Inr (\<exists>k. unat (i + 1) \<le> k \<and> k < unat cnt \<and> bit_at b (unat start + k) = v)" .
      moreover have "(\<exists>k. unat (i + 1) \<le> k \<and> k < unat cnt \<and> bit_at b (unat start + k) = v)
        \<longleftrightarrow> (\<exists>k. unat i \<le> k \<and> k < unat cnt \<and> bit_at b (unat start + k) = v)"
        unfolding step using ne by (metis Suc_leD Suc_leI le_neq_implies_less)
      ultimately show ?thesis
        using True t ne by (simp add: contains_loop.simps [of b start cnt v i])
    qed
  qed
qed

lemma bitmap_contains_spec:
  assumes "wf_bitmap b" and "unat start + unat cnt \<le> unat (bit_cnt b)"
  shows "bitmap_contains b start cnt v = Inr (\<exists>k<unat cnt. bit_at b (unat start + k) = v)"
proof -
  from assms(2) have "start \<le> bit_cnt b"
    by (simp add: word_le_nat_alt)
  moreover from assms(2) have "start + cnt \<le> bit_cnt b"
    by (simp add: word_le_nat_alt unat_add_in_range [of start cnt "bit_cnt b"])
  ultimately show ?thesis
    by (simp add: bitmap_contains_def contains_loop_spec [OF assms])
qed

subsection \<open>Setting bits\<close>

lemma bit_at_update:
  "bit_at (b\<lparr>bits := (bits b)[k := w]\<rparr>) n
    = (if n div 32 = k \<and> k < length (bits b) then bit w (n mod 32) else bit_at b n)"
  by (cases "k < length (bits b)") (auto simp: bit_at_def list_update_beyond)

lemma bit_single: "bit (2 ^ m :: 32 word) j \<longleftrightarrow> j = m \<and> m < 32"
  by (auto simp: bit_exp_iff possible_bit_word)

lemma bitmap_set_spec:
  assumes "wf_bitmap b" and "idx < bit_cnt b"
  shows "\<exists>b'. bitmap_set b idx v = Inr b' \<and> bit_cnt b' = bit_cnt b
    \<and> length (bits b') = length (bits b)
    \<and> (\<forall>n. bit_at b' n = (if n = unat idx then v else bit_at b n))"
proof -
  let ?k = "unat idx div 32" and ?m = "unat idx mod 32"
  let ?w = "bits b ! ?k"
  let ?w' = "if v then ?w OR push_bit ?m 1 else ?w AND NOT (push_bit ?m 1)"
  let ?b' = "b\<lparr>bits := (bits b)[?k := ?w']\<rparr>"
  from assms have k: "?k < length (bits b)"
    using elem_idx_in_range [of b idx] by (simp add: unat_elem_idx)
  have bit_w': "bit ?w' j = (if j = ?m then v else bit ?w j)" if "j < 32" for j
    using that by (simp add: bit_or_iff bit_and_iff bit_not_iff bit_single)
  have "bit_at ?b' n = (if n = unat idx then v else bit_at b n)" for n
  proof (cases "n div 32 = ?k")
    case True
    then have "n = unat idx \<longleftrightarrow> n mod 32 = ?m"
      by (metis div_mult_mod_eq)
    with True k bit_w' [of "n mod 32"] show ?thesis
      by (simp add: bit_at_update) (simp add: bit_at_def)
  next
    case False
    then have "n \<noteq> unat idx" by auto
    with False show ?thesis
      by (simp add: bit_at_update)
  qed
  moreover have "bitmap_set b idx v = Inr ?b'"
    using assms(2) k
    by (simp add: bitmap_set_def bitmap_mark_def bitmap_reset_def elem_read_def elem_write_def
        unat_elem_idx bit_mask_eq Let_def)
  ultimately show ?thesis
    by simp
qed

lemma set_multiple_loop_spec:
  assumes "wf_bitmap b" and "unat start + unat cnt \<le> unat (bit_cnt b)"
  shows "\<exists>b'. set_multiple_loop b start cnt v i = Inr b' \<and> bit_cnt b' = bit_cnt b
    \<and> length (bits b') = length (bits b)
    \<and> (\<forall>n. bit_at b' n
          = (if unat start + unat i \<le> n \<and> n < unat start + unat cnt then v else bit_at b n))"
  using assms
proof (induction b start cnt v i rule: set_multiple_loop.induct)
  case (1 b start cnt v i)
  show ?case
  proof (cases "i < cnt")
    case False
    then have "unat cnt \<le> unat i" by (simp add: word_less_nat_alt)
    with False show ?thesis
      by (auto simp: set_multiple_loop.simps [of b start cnt v i])
  next
    case True
    then have ui: "unat i < unat cnt" by (simp add: word_less_nat_alt)
    from True have step: "unat (i + 1) = Suc (unat i)" by (rule unat_inc_less)
    from ui "1.prems"(2) have sum: "unat (start + i) = unat start + unat i"
      by (intro unat_add_in_range [of start i "bit_cnt b"]) simp
    with ui "1.prems"(2) have "start + i < bit_cnt b"
      by (simp add: word_less_nat_alt)
    from bitmap_set_spec [OF "1.prems"(1) this, of v] obtain b1
      where set: "bitmap_set b (start + i) v = Inr b1"
        and cnt1: "bit_cnt b1 = bit_cnt b" and len1: "length (bits b1) = length (bits b)"
        and bits1: "\<And>n. bit_at b1 n = (if n = unat start + unat i then v else bit_at b n)"
      unfolding sum by blast
    from "1.prems" cnt1 len1 have "wf_bitmap b1" "unat start + unat cnt \<le> unat (bit_cnt b1)"
      by (simp_all add: wf_bitmap_def)
    from "1.IH" [OF True set this] obtain b'
      where loop: "set_multiple_loop b1 start cnt v (i + 1) = Inr b'"
        and cnt': "bit_cnt b' = bit_cnt b1" and len': "length (bits b') = length (bits b1)"
        and bits': "\<And>n. bit_at b' n
          = (if unat start + unat (i + 1) \<le> n \<and> n < unat start + unat cnt then v else bit_at b1 n)"
      by blast
    have "bit_at b' n
        = (if unat start + unat i \<le> n \<and> n < unat start + unat cnt then v else bit_at b n)" for n
      using ui by (auto simp: bits' bits1 step)
    with True set loop cnt' cnt1 len' len1 show ?thesis
      by (simp add: set_multiple_loop.simps [of b start cnt v i])
  qed
qed

lemma bitmap_set_multiple_spec:
  assumes "wf_bitmap b" and "unat start + unat cnt \<le> unat (bit_cnt b)"
  shows "\<exists>b'. bitmap_set_multiple b start cnt v = Inr b' \<and> bit_cnt b' = bit_cnt b
    \<and> length (bits b') = length (bits b)
    \<and> (\<forall>n. bit_at b' n
          = (if unat start \<le> n \<and> n < unat start + unat cnt then v else bit_at b n))"
proof -
  from assms(2) have "start \<le> bit_cnt b"
    by (simp add: word_le_nat_alt)
  moreover from assms(2) have "start + cnt \<le> bit_cnt b"
    by (simp add: word_le_nat_alt unat_add_in_range [of start cnt "bit_cnt b"])
  ultimately show ?thesis
    using set_multiple_loop_spec [OF assms, of v 0]
    by (simp add: bitmap_set_multiple_def)
qed

section \<open>First fit returns the least index\<close>

lemma all_equal_iff:
  "all_equal b i cnt v \<longleftrightarrow> (\<forall>k<unat cnt. bit_at b (unat i + k) = v)"
  by (auto simp: all_equal_def list_all_iff)

lemma bitmap_contains_all_equal:
  assumes "wf_bitmap b" and "unat i + unat cnt \<le> unat (bit_cnt b)"
  shows "bitmap_contains b i cnt (\<not> v) = Inr (\<not> all_equal b i cnt v)"
  unfolding bitmap_contains_spec [OF assms] all_equal_iff by auto

lemma fit_loop_spec:
  assumes "wf_bitmap b" and "unat hi + unat cnt \<le> unat (bit_cnt b)"
  shows "case fit_loop b cnt v hi i of
      Inl e \<Rightarrow> False
    | Inr None \<Rightarrow> (\<forall>j. i \<le> j \<and> j \<le> hi \<longrightarrow> \<not> all_equal b j cnt v)
    | Inr (Some r) \<Rightarrow> i \<le> r \<and> r \<le> hi \<and> all_equal b r cnt v
        \<and> (\<forall>j. i \<le> j \<and> j < r \<longrightarrow> \<not> all_equal b j cnt v)"
  using assms
proof (induction b cnt v hi i rule: fit_loop.induct)
  case (1 b cnt v hi i)
  show ?case
  proof (cases "i \<le> hi")
    case False
    then show ?thesis
      by (auto simp: fit_loop.simps [of b cnt v hi i])
  next
    case True
    with "1.prems"(2) have "unat i + unat cnt \<le> unat (bit_cnt b)"
      by (simp add: word_le_nat_alt)
    with "1.prems"(1) have c: "bitmap_contains b i cnt (\<not> v) = Inr (\<not> all_equal b i cnt v)"
      by (rule bitmap_contains_all_equal)
    show ?thesis
    proof (cases "all_equal b i cnt v")
      case eq: True
      with True c show ?thesis
        by (auto simp: fit_loop.simps [of b cnt v hi i])
    next
      case ne: False
      with c have "i < bit_cnt b"
        using bitmap_contains_True_less [of b i cnt "\<not> v"] by simp
      then have step: "unat (i + 1) = Suc (unat i)" by (rule unat_inc_less)
      have le: "i + 1 \<le> j \<longleftrightarrow> i \<le> j \<and> j \<noteq> i" for j
        unfolding word_le_nat_alt step by (auto simp: word_unat_eq_iff)
      from ne have unfold: "fit_loop b cnt v hi i = fit_loop b cnt v hi (i + 1)"
        using True c by (simp add: fit_loop.simps [of b cnt v hi i])
      from ne c have "\<not> \<not> \<not> all_equal b i cnt v" by simp
      from "1.IH" [OF True c this "1.prems"] ne show ?thesis
        unfolding unfold le by (auto split: sum.splits option.splits)
    qed
  qed
qed

text \<open>
  C6. Under first fit (\<^verbatim>\<open>pallocator == 0\<close>), on a bitmap of \<open>bit_cnt b\<close> bits with
  \<open>start \<le> bit_cnt b\<close> and \<open>1 \<le> cnt \<le> bit_cnt b\<close>, the scan returns (it neither
  panics nor runs for ever); if some index \<open>i\<close> with \<open>start \<le> i \<le> bit_cnt b - cnt\<close>
  has all \<open>cnt\<close> bits from \<open>i\<close> on equal to \<open>value\<close>, the scan returns the least such
  index, and otherwise it returns \<^verbatim>\<open>BITMAP_ERROR\<close>.
\<close>

theorem first_fit_least:
  assumes "wf_bitmap b" and "start \<le> bit_cnt b" and "1 \<le> cnt" and "cnt \<le> bit_cnt b"
  shows "\<exists>r. bitmap_scan b start cnt value 0 st = Some (Inr (r, scan_enter st cnt))
    \<and> (if \<exists>i. start \<le> i \<and> i \<le> bit_cnt b - cnt \<and> all_equal b i cnt value
       then start \<le> r \<and> r \<le> bit_cnt b - cnt \<and> all_equal b r cnt value
         \<and> (\<forall>j. start \<le> j \<and> j < r \<longrightarrow> \<not> all_equal b j cnt value)
       else r = BITMAP_ERROR)"
proof -
  let ?last = "bit_cnt b - cnt"
  from assms(4) have last: "unat ?last + unat cnt \<le> unat (bit_cnt b)"
    by (simp add: unat_sub word_le_nat_alt)
  from assms(3) have "0 < unat cnt"
    by (simp add: word_le_nat_alt)
  moreover have "unat (bit_cnt b) \<le> unat BITMAP_ERROR"
    by (simp add: BITMAP_ERROR_def word_le_nat_alt [symmetric])
  ultimately have "unat ?last < unat BITMAP_ERROR"
    using last by linarith
  then have ne: "r \<le> ?last \<Longrightarrow> r \<noteq> BITMAP_ERROR" for r
    by (auto simp: word_le_nat_alt)
  note spec = fit_loop_spec [OF assms(1) last, where v = "value" and i = start]
  show ?thesis
  proof (cases "fit_loop b cnt value ?last start")
    case (Inl e)
    with spec show ?thesis by simp
  next
    case (Inr x)
    show ?thesis
    proof (cases x)
      case None
      with Inr spec assms(2,4) show ?thesis
        by (auto simp: bitmap_scan_def first_fit_def Let_def)
    next
      case (Some r)
      with Inr spec assms(2,4) show ?thesis
        by (auto simp: bitmap_scan_def first_fit_def Let_def)
    qed
  qed
qed

theorem first_fit_least_witness:
  "wf_bitmap \<lparr>bit_cnt = 20, bits = [0xFFC1F]\<rparr>
   \<and> (0 :: size_t) \<le> bit_cnt \<lparr>bit_cnt = 20, bits = [0xFFC1F]\<rparr>
   \<and> (1 :: size_t) \<le> 3
   \<and> (3 :: size_t) \<le> bit_cnt \<lparr>bit_cnt = 20, bits = [0xFFC1F]\<rparr>
   \<and> bitmap_scan \<lparr>bit_cnt = 20, bits = [0xFFC1F]\<rparr> 0 3 False 0 statics_init
       = Some (Inr (5, \<lparr>latest = 0, check_cnt = 0, check_size = 3\<rparr>))
   \<and> all_equal \<lparr>bit_cnt = 20, bits = [0xFFC1F]\<rparr> 5 3 False
   \<and> \<not> all_equal \<lparr>bit_cnt = 20, bits = [0xFFC1F]\<rparr> 4 3 False"
proof -
  let ?b = "\<lparr>bit_cnt = 20, bits = [0xFFC1F]\<rparr>"
  have h1: "wf_bitmap ?b"
    by (simp add: wf_bitmap_def)
  have h2: "(0 :: size_t) \<le> bit_cnt ?b" and h3: "(1 :: size_t) \<le> 3"
    and h4: "(3 :: size_t) \<le> bit_cnt ?b"
    by simp_all
  have ev: "bitmap_scan ?b 0 3 False 0 statics_init
      = Some (Inr (5, \<lparr>latest = 0, check_cnt = 0, check_size = 3\<rparr>))"
    by code_simp
  have ne: "(5 :: size_t) \<noteq> BITMAP_ERROR"
    by (simp add: BITMAP_ERROR_def)
  from first_fit_least [OF h1 h2 h3 h4, of False statics_init] ev ne
  have "all_equal ?b 5 3 False \<and> (\<forall>j. 0 \<le> j \<and> j < 5 \<longrightarrow> \<not> all_equal ?b j 3 False)"
    by (auto split: if_splits)
  then have "all_equal ?b 5 3 False" and "\<not> all_equal ?b 4 3 False"
    by simp_all
  with h1 h2 h3 h4 ev show ?thesis
    by simp
qed

section \<open>Next fit with the cursor in range\<close>

text \<open>
  When \<open>latest\<close> is at most \<open>last\<close>, both searches of the next-fit scan stay
  within the bitmap: the scan does not panic, it returns the least index from
  \<open>latest\<close> to \<open>last\<close> where \<open>cnt\<close> bits equal \<open>value\<close>, else the least such index
  from \<open>start\<close> to \<open>latest\<close>, and else \<^verbatim>\<open>BITMAP_ERROR\<close> with \<open>latest\<close> unchanged.
\<close>

lemma next_fit_cursor_in_range:
  assumes "wf_bitmap b" and "cnt \<le> bit_cnt b" and "latest st \<le> bit_cnt b - cnt"
  shows "\<exists>r st'. next_fit b start cnt value (bit_cnt b - cnt) st = Inr (r, st')
    \<and> (if \<exists>i. latest st \<le> i \<and> i \<le> bit_cnt b - cnt \<and> all_equal b i cnt value
       then latest st \<le> r \<and> r \<le> bit_cnt b - cnt \<and> all_equal b r cnt value
         \<and> (\<forall>j. latest st \<le> j \<and> j < r \<longrightarrow> \<not> all_equal b j cnt value)
         \<and> st' = st\<lparr>latest := r\<rparr>
       else if \<exists>i. start \<le> i \<and> i \<le> latest st \<and> all_equal b i cnt value
       then start \<le> r \<and> r \<le> latest st \<and> all_equal b r cnt value
         \<and> (\<forall>j. start \<le> j \<and> j < r \<longrightarrow> \<not> all_equal b j cnt value)
         \<and> st' = st\<lparr>latest := r\<rparr>
       else r = BITMAP_ERROR \<and> st' = st)"
proof -
  let ?last = "bit_cnt b - cnt"
  from assms(2) have last: "unat ?last + unat cnt \<le> unat (bit_cnt b)"
    by (simp add: unat_sub word_le_nat_alt)
  with assms(3) have cur: "unat (latest st) + unat cnt \<le> unat (bit_cnt b)"
    by (simp add: word_le_nat_alt)
  note first = fit_loop_spec [OF assms(1) last, where v = "value" and i = "latest st"]
  note wrap = fit_loop_spec [OF assms(1) cur, where v = "value" and i = start]
  show ?thesis
  proof (cases "fit_loop b cnt value ?last (latest st)")
    case (Inl e)
    with first show ?thesis by simp
  next
    case (Inr x)
    show ?thesis
    proof (cases x)
      case (Some r)
      with Inr first show ?thesis
        by (auto simp: next_fit_def)
    next
      case None
      note none1 = None
      show ?thesis
      proof (cases "fit_loop b cnt value (latest st) start")
        case (Inl e)
        with wrap show ?thesis by simp
      next
        case inr2: (Inr y)
        show ?thesis
        proof (cases y)
          case (Some r)
          with Inr none1 inr2 first wrap show ?thesis
            by (auto simp: next_fit_def)
        next
          case None
          with Inr none1 inr2 first wrap show ?thesis
            by (auto simp: next_fit_def)
        qed
      qed
    qed
  qed
qed

section \<open>Scan and flip\<close>

subsection \<open>An index the scan returns has room for \<open>cnt\<close> bits\<close>

lemma contains_loop_False_tests:
  "contains_loop b start cnt v i = Inr False \<Longrightarrow> i \<le> k \<Longrightarrow> k < cnt \<Longrightarrow> start + k < bit_cnt b"
proof (induction b start cnt v i rule: contains_loop.induct)
  case (1 b start cnt v i)
  from "1.prems"(2,3) have lt: "i < cnt" by simp
  with "1.prems"(1) obtain t where t: "bitmap_test b (start + i) = Inr t" and ne: "t \<noteq> v"
    and rest: "contains_loop b start cnt v (i + 1) = Inr False"
    by (auto simp: contains_loop.simps [of b start cnt v i] split: sum.splits if_splits)
  show ?case
  proof (cases "k = i")
    case True
    with t show ?thesis
      by (simp add: bitmap_test_def split: if_splits)
  next
    case False
    with "1.prems"(2) have "i < k" by simp
    then have "i + 1 \<le> k" by (rule inc_le)
    from "1.IH" [OF lt t ne rest this "1.prems"(3)] show ?thesis .
  qed
qed

lemma bitmap_contains_False_range:
  assumes "bitmap_contains b i cnt v = Inr False"
  shows "unat i + unat cnt \<le> unat (bit_cnt b)"
proof (rule ccontr)
  assume "\<not> unat i + unat cnt \<le> unat (bit_cnt b)"
  then have over: "unat (bit_cnt b) < unat i + unat cnt" by simp
  from assms have le: "i \<le> bit_cnt b" and loop: "contains_loop b i cnt v 0 = Inr False"
    by (simp_all add: bitmap_contains_def split: if_splits)
  let ?k = "bit_cnt b - i"
  from le have k: "unat ?k = unat (bit_cnt b) - unat i"
    by (simp add: unat_sub)
  with over le have "?k < cnt"
    by (simp add: word_less_nat_alt word_le_nat_alt)
  from contains_loop_False_tests [OF loop _ this] have "i + ?k < bit_cnt b"
    by simp
  then show False by simp
qed

lemma fit_loop_Some:
  "fit_loop b cnt v hi i = Inr (Some r) \<Longrightarrow> bitmap_contains b r cnt (\<not> v) = Inr False"
proof (induction b cnt v hi i rule: fit_loop.induct)
  case (1 b cnt v hi i)
  from "1.prems" have le: "i \<le> hi"
    by (simp add: fit_loop.simps [of b cnt v hi i] split: if_splits)
  with "1.prems" obtain c where c: "bitmap_contains b i cnt (\<not> v) = Inr c"
    by (auto simp: fit_loop.simps [of b cnt v hi i] split: sum.splits)
  show ?case
  proof (cases c)
    case False
    with "1.prems" le c show ?thesis
      by (simp add: fit_loop.simps [of b cnt v hi i])
  next
    case True
    with "1.prems" le c have "fit_loop b cnt v hi (i + 1) = Inr (Some r)"
      by (simp add: fit_loop.simps [of b cnt v hi i])
    from "1.IH" [OF le c _ this] True show ?thesis by simp
  qed
qed

lemma first_fit_in_range:
  assumes "first_fit b start cnt v last' = Inr r" and "r \<noteq> BITMAP_ERROR"
  shows "unat r + unat cnt \<le> unat (bit_cnt b)"
  using assms
  by (auto simp: first_fit_def split: sum.splits option.splits
      dest!: fit_loop_Some bitmap_contains_False_range)

lemma next_fit_in_range:
  assumes "next_fit b start cnt v last' st = Inr (r, st')" and "r \<noteq> BITMAP_ERROR"
  shows "unat r + unat cnt \<le> unat (bit_cnt b)"
  using assms
  by (auto simp: next_fit_def split: sum.splits option.splits
      dest!: fit_loop_Some bitmap_contains_False_range)

lemma unat_add_le: "unat (a + b) \<le> unat a + unat b" for a b :: "'a::len word"
  by (simp add: unat_word_ariths)

lemma count_loop_le:
  "count_loop b start cnt v i vc = Inr r \<Longrightarrow> unat r \<le> unat vc + (unat cnt - unat i)"
proof (induction b start cnt v i vc rule: count_loop.induct)
  case (1 b start cnt v i vc)
  show ?case
  proof (cases "i < cnt")
    case False
    with "1.prems" show ?thesis
      by (simp add: count_loop.simps [of b start cnt v i vc])
  next
    case True
    then have step: "unat (i + 1) = Suc (unat i)" by (rule unat_inc_less)
    from True have ui: "unat i < unat cnt" by (simp add: word_less_nat_alt)
    from True "1.prems" obtain t where t: "bitmap_test b (start + i) = Inr t"
      by (auto simp: count_loop.simps [of b start cnt v i vc] split: sum.splits)
    show ?thesis
    proof (cases "t = v")
      case eq: True
      with True t "1.prems" have "count_loop b start cnt v (i + 1) (vc + 1) = Inr r"
        by (simp add: count_loop.simps [of b start cnt v i vc])
      from "1.IH"(1) [OF True t eq this] unat_add_le [of vc 1] ui show ?thesis
        by (simp add: step)
    next
      case ne: False
      with True t "1.prems" have "count_loop b start cnt v (i + 1) vc = Inr r"
        by (simp add: count_loop.simps [of b start cnt v i vc])
      from "1.IH"(2) [OF True t ne this] ui show ?thesis
        by (simp add: step)
    qed
  qed
qed

lemma bitmap_count_le: "bitmap_count b start cnt v = Inr r \<Longrightarrow> unat r \<le> unat cnt"
  using count_loop_le [of b start cnt v 0 0 r]
  by (simp add: bitmap_count_def split: if_splits)

lemma best_fit_candidate:
  assumes "best_fit_skip b last' i = Inr i'" and "\<not> last' \<le> i"
    and "bitmap_count b i (i' - 1 - i) False = Inr ts" and "cnt \<le> ts"
  shows "unat i + unat cnt \<le> unat last'"
proof -
  from assms(1,2) have "i < i'" and "i' \<le> last'"
    using best_fit_skip_bounds [of b last' i i'] by simp_all
  then have lt: "unat i < unat i'" and le: "unat i' \<le> unat last'"
    by (simp_all add: word_less_nat_alt word_le_nat_alt)
  from lt have "1 \<le> i'"
    by (simp add: word_le_nat_alt)
  then have "unat (i' - 1) = unat i' - 1"
    by (simp add: unat_sub)
  moreover from lt this have "i \<le> i' - 1"
    by (simp add: word_le_nat_alt)
  ultimately have "unat (i' - 1 - i) = unat i' - 1 - unat i"
    by (simp add: unat_sub)
  with bitmap_count_le [OF assms(3)] assms(4) lt le show ?thesis
    by (simp add: word_le_nat_alt)
qed

lemma best_fit_loop_in_range:
  "best_fit_loop b cnt last' i idx size' = Inr r \<Longrightarrow> r \<noteq> BITMAP_ERROR
    \<Longrightarrow> idx \<noteq> 99999999 \<longrightarrow> unat idx + unat cnt \<le> unat last'
    \<Longrightarrow> unat r + unat cnt \<le> unat last'"
proof (induction b cnt last' i idx size' rule: best_fit_loop.induct)
  case (1 b cnt last' i idx size')
  show ?case
  proof (cases "last' \<le> i")
    case True
    with "1.prems" show ?thesis
      by (simp add: best_fit_loop.simps [of b cnt last' i idx size'] split: if_splits)
  next
    case False
    with "1.prems"(1) obtain t where t: "bitmap_test b i = Inr t"
      by (auto simp: best_fit_loop.simps [of b cnt last' i idx size'] split: sum.splits)
    show ?thesis
    proof (cases t)
      case True
      with False t "1.prems"(1) have "best_fit_loop b cnt last' (i + 1) idx size' = Inr r"
        by (simp add: best_fit_loop.simps [of b cnt last' i idx size'])
      from "1.IH"(5) [OF False t _ this "1.prems"(2,3)] True show ?thesis
        by simp
    next
      case f: False
      with False t "1.prems"(1) obtain i' ts where skip: "best_fit_skip b last' i = Inr i'"
        and count: "bitmap_count b i (i' - 1 - i) False = Inr ts"
        by (auto simp: best_fit_loop.simps [of b cnt last' i idx size'] Let_def split: sum.splits)
      from f have tf: "t = False" by simp
      note cand = best_fit_candidate [OF skip False count]
      note unfold = best_fit_loop.simps [of b cnt last' i idx size']
      consider (a) "cnt \<le> ts" "size' = 0"
        | (b) "cnt \<le> ts" "size' \<noteq> 0" "ts - cnt < size' - cnt"
        | (c) "cnt \<le> ts" "size' \<noteq> 0" "\<not> ts - cnt < size' - cnt"
        | (d) "\<not> cnt \<le> ts"
        by blast
      then show ?thesis
      proof cases
        case a
        from "1.prems"(1) [unfolded unfold] False t f skip count a
        have "best_fit_loop b cnt last' i' i ts = Inr r"
          by simp
        from "1.IH"(1) [OF False t tf refl skip count a this "1.prems"(2)] cand [OF a(1)]
        show ?thesis by simp
      next
        case b
        from "1.prems"(1) [unfolded unfold] False t f skip count b
        have "best_fit_loop b cnt last' i' i ts = Inr r"
          by simp
        from "1.IH"(2) [OF False t tf refl skip count b this "1.prems"(2)] cand [OF b(1)]
        show ?thesis by simp
      next
        case c
        from "1.prems"(1) [unfolded unfold] False t f skip count c
        have "best_fit_loop b cnt last' i' idx size' = Inr r"
          by simp
        from "1.IH"(3) [OF False t tf refl skip count c this "1.prems"(2,3)]
        show ?thesis .
      next
        case d
        from "1.prems"(1) [unfolded unfold] False t f skip count d
        have "best_fit_loop b cnt last' i' idx size' = Inr r"
          by simp
        from "1.IH"(4) [OF False t tf refl skip count d this "1.prems"(2,3)]
        show ?thesis .
      qed
    qed
  qed
qed

lemma best_fit_in_range:
  assumes "best_fit b start cnt (bit_cnt b - cnt) = Inr r" and "r \<noteq> BITMAP_ERROR"
    and "cnt \<le> bit_cnt b"
  shows "unat r + unat cnt \<le> unat (bit_cnt b)"
proof -
  from assms(1,2) have "unat r + unat cnt \<le> unat (bit_cnt b - cnt)"
    unfolding best_fit_def by (rule best_fit_loop_in_range) simp
  with assms(3) show ?thesis
    by (simp add: unat_sub)
qed

lemma buddy_walk_result:
  assumes "buddy_walk b v m cs bound i off = Some (Inr r)" and "r \<noteq> BITMAP_ERROR"
  shows "if bound \<noteq> 0 then bitmap_contains b r (bound * 2) (\<not> v) = Inr False else r < bit_cnt b"
proof -
  have "\<forall>r. y = Inr r \<longrightarrow> r \<noteq> BITMAP_ERROR \<longrightarrow>
      (if bound \<noteq> 0 then bitmap_contains b r (bound * 2) (\<not> v) = Inr False else r < bit_cnt b)"
    if "buddy_walk b v m cs bound i off = Some y" for y
    by (rule buddy_walk.raw_induct [where P = "\<lambda>b v m cs bound i off y.
        \<forall>r. y = Inr r \<longrightarrow> r \<noteq> BITMAP_ERROR \<longrightarrow>
      (if bound \<noteq> 0 then bitmap_contains b r (bound * 2) (\<not> v) = Inr False else r < bit_cnt b)", OF _ that])
      (auto simp: bitmap_test_def split: if_splits sum.splits option.splits)
  with assms show ?thesis by blast
qed

lemma buddy_bounds_halve:
  assumes "bound \<in> buddy_bounds"
  shows "bound div 2 = 0 \<and> bound = 1
    \<or> bound div 2 \<in> buddy_bounds \<and> bound div 2 \<noteq> 0 \<and> bound div 2 * 2 = bound"
  using assms unfolding buddy_bounds_def by auto

lemma buddy_bound_in_range:
  assumes "buddy_bound b cnt v m cs bound i off = Some (Inr r)" and "r \<noteq> BITMAP_ERROR"
    and "bound \<in> buddy_bounds" and "cnt \<le> bound"
  shows "unat r + unat cnt \<le> unat (bit_cnt b)"
proof -
  let ?P = "\<lambda>b cnt (v :: bool) (m :: size_t) (cs :: size_t) bound (i :: size_t) (off :: size_t) y.
      cnt \<noteq> 0 \<and> (\<forall>r. y = Inr r \<longrightarrow> r \<noteq> BITMAP_ERROR \<longrightarrow> bound \<in> buddy_bounds \<longrightarrow> cnt \<le> bound
        \<longrightarrow> unat r + unat cnt \<le> unat (bit_cnt b))"
  have "?P b cnt v m cs bound i off y" if "buddy_bound b cnt v m cs bound i off = Some y" for y
  proof (rule buddy_bound.raw_induct [where P = ?P, OF _ that], goal_cases)
    case (1 f b cnt v m cs bound i off y)
    let ?h = "bound div 2"
    show ?case
    proof (cases "?h < cnt")
      case True
      then have nz: "cnt \<noteq> 0" by auto
      from True "1"(2) have walk: "buddy_walk b v m cs ?h i off = Some y"
        by (simp add: Let_def)
      have "unat r + unat cnt \<le> unat (bit_cnt b)"
        if y: "y = Inr r" and r: "r \<noteq> BITMAP_ERROR" and bd: "bound \<in> buddy_bounds"
          and le: "cnt \<le> bound" for r
      proof -
        note res = buddy_walk_result [OF walk [unfolded y] r]
        from buddy_bounds_halve [OF bd] show ?thesis
        proof
          assume "?h = 0 \<and> bound = 1"
          with res le have "r < bit_cnt b" "unat cnt \<le> 1"
            by (simp_all add: word_le_nat_alt)
          then show ?thesis
            by (simp add: word_less_nat_alt)
        next
          assume h: "?h \<in> buddy_bounds \<and> ?h \<noteq> 0 \<and> ?h * 2 = bound"
          with res have "bitmap_contains b r bound (\<not> v) = Inr False"
            by simp
          from bitmap_contains_False_range [OF this] le show ?thesis
            by (simp add: word_le_nat_alt)
        qed
      qed
      with nz show ?thesis by blast
    next
      case False
      with "1"(2) have "f b cnt v m cs ?h i off = Some y"
        by (simp add: Let_def)
      from "1"(1) [OF this] have nz: "cnt \<noteq> 0"
        and ih: "\<And>r. y = Inr r \<Longrightarrow> r \<noteq> BITMAP_ERROR \<Longrightarrow> ?h \<in> buddy_bounds \<Longrightarrow> cnt \<le> ?h
          \<Longrightarrow> unat r + unat cnt \<le> unat (bit_cnt b)"
        by blast+
      have "unat r + unat cnt \<le> unat (bit_cnt b)"
        if y: "y = Inr r" and r: "r \<noteq> BITMAP_ERROR" and bd: "bound \<in> buddy_bounds" for r
      proof -
        from False have le: "cnt \<le> ?h" by simp
        with nz have "?h \<noteq> 0" by auto
        with buddy_bounds_halve [OF bd] have "?h \<in> buddy_bounds" by blast
        from ih [OF y r this le] show ?thesis .
      qed
      with nz show ?thesis by blast
    qed
  qed
  with assms show ?thesis by blast
qed

lemma buddy_system_in_range:
  assumes "buddy_system b cnt v st = Some (Inr (r, st'))" and "r \<noteq> BITMAP_ERROR"
  shows "unat r + unat cnt \<le> unat (bit_cnt b)"
proof -
  obtain i st1 where start: "buddy_start st = (i, st1)"
    by (cases "buddy_start st") auto
  with assms have le: "cnt \<le> 512"
    and "buddy_bound b cnt v 512 (check_size st1) 512 i 0 = Some (Inr r)"
    by (auto simp: buddy_system_def Let_def split: if_splits option.splits sum.splits)
  from this(2) assms(2) _ le show ?thesis
    by (rule buddy_bound_in_range) (simp add: buddy_bounds_def)
qed

lemma bitmap_scan_in_range:
  assumes "bitmap_scan b start cnt v p st = Some (Inr (r, st'))" and "r \<noteq> BITMAP_ERROR"
  shows "unat r + unat cnt \<le> unat (bit_cnt b)"
proof -
  from assms have le: "cnt \<le> bit_cnt b"
    by (auto simp: bitmap_scan_def Let_def split: if_splits)
  from assms consider "p = 0" | "p = 1" | "p = 2" | "p = 3"
    by (auto simp: bitmap_scan_def Let_def split: if_splits)
  then show ?thesis
  proof cases
    case 1
    with assms le show ?thesis
      by (auto simp: bitmap_scan_def Let_def split: if_splits sum.splits
          dest: first_fit_in_range)
  next
    case 2
    with assms le show ?thesis
      by (auto simp: bitmap_scan_def Let_def split: if_splits sum.splits
          dest: next_fit_in_range)
  next
    case 3
    with assms le show ?thesis
      by (auto simp: bitmap_scan_def Let_def split: if_splits sum.splits
          dest: best_fit_in_range)
  next
    case 4
    with assms le show ?thesis
      by (auto simp: bitmap_scan_def Let_def split: if_splits sum.splits
          dest: buddy_system_in_range)
  qed
qed

subsection \<open>The composite operation\<close>

text \<open>
  C8. On a bitmap whose array has room for its bits, \<^verbatim>\<open>bitmap_scan_and_flip\<close>
  does what \<^verbatim>\<open>bitmap_scan\<close> does with the same arguments and statics: it does not
  return when the scan does not, it panics when the scan panics, and otherwise
  it returns the scan's index and leaves the scan's statics. When that index is
  \<^verbatim>\<open>BITMAP_ERROR\<close> the bitmap is left as it was; otherwise \<^verbatim>\<open>bitmap_set_multiple\<close>
  does not panic, the \<open>cnt\<close> bits from the index on are \<open>\<not> value\<close> afterwards, and
  every other bit, the size and the length of the array are unchanged.
\<close>

theorem scan_and_flip_spec:
  assumes "wf_bitmap b"
  shows "case bitmap_scan b start cnt value pallocator st of
      None \<Rightarrow> bitmap_scan_and_flip b start cnt value pallocator st = None
    | Some (Inl e) \<Rightarrow> bitmap_scan_and_flip b start cnt value pallocator st = Some (Inl e)
    | Some (Inr (idx, st')) \<Rightarrow>
        (\<exists>b'. bitmap_scan_and_flip b start cnt value pallocator st = Some (Inr (idx, b', st'))
          \<and> (if idx = BITMAP_ERROR then b' = b
             else bit_cnt b' = bit_cnt b \<and> length (bits b') = length (bits b)
               \<and> (\<forall>n. bit_at b' n
                    = (if unat idx \<le> n \<and> n < unat idx + unat cnt then \<not> value
                       else bit_at b n))))"
proof (cases "bitmap_scan b start cnt value pallocator st")
  case None
  then show ?thesis
    by (simp add: bitmap_scan_and_flip_def)
next
  case (Some res)
  show ?thesis
  proof (cases res)
    case (Inl e)
    with Some show ?thesis
      by (simp add: bitmap_scan_and_flip_def)
  next
    case (Inr p)
    obtain idx st' where p: "p = (idx, st')"
      by (cases p) auto
    show ?thesis
    proof (cases "idx = BITMAP_ERROR")
      case True
      with Some Inr p show ?thesis
        by (simp add: bitmap_scan_and_flip_def)
    next
      case False
      from Some Inr p have "bitmap_scan b start cnt value pallocator st = Some (Inr (idx, st'))"
        by simp
      from this False have "unat idx + unat cnt \<le> unat (bit_cnt b)"
        by (rule bitmap_scan_in_range)
      from bitmap_set_multiple_spec [OF assms this, of "\<not> value"] Some Inr p False
      show ?thesis
        by (auto simp: bitmap_scan_and_flip_def)
    qed
  qed
qed

theorem scan_and_flip_spec_witness:
  "wf_bitmap \<lparr>bit_cnt = 10, bits = [0xFF]\<rparr>
   \<and> bitmap_scan \<lparr>bit_cnt = 10, bits = [0xFF]\<rparr> 0 2 False 1 statics_init
       = Some (Inr (8, \<lparr>latest = 8, check_cnt = 0, check_size = 2\<rparr>))
   \<and> bitmap_scan_and_flip \<lparr>bit_cnt = 10, bits = [0xFF]\<rparr> 0 2 False 1 statics_init
       = Some (Inr (8, \<lparr>bit_cnt = 10, bits = [0x3FF]\<rparr>,
           \<lparr>latest = 8, check_cnt = 0, check_size = 2\<rparr>))
   \<and> bit_at \<lparr>bit_cnt = 10, bits = [0x3FF]\<rparr> 8
   \<and> bit_at \<lparr>bit_cnt = 10, bits = [0x3FF]\<rparr> 9
   \<and> bit_at \<lparr>bit_cnt = 10, bits = [0x3FF]\<rparr> 10 = bit_at \<lparr>bit_cnt = 10, bits = [0xFF]\<rparr> 10"
proof -
  let ?b = "\<lparr>bit_cnt = 10, bits = [0xFF]\<rparr>"
  let ?b' = "\<lparr>bit_cnt = 10, bits = [0x3FF]\<rparr>"
  let ?st = "\<lparr>latest = 8, check_cnt = 0, check_size = 2\<rparr>"
  have h: "wf_bitmap ?b"
    by (simp add: wf_bitmap_def)
  have scan: "bitmap_scan ?b 0 2 False 1 statics_init = Some (Inr (8, ?st))"
    by code_simp
  have flip: "bitmap_scan_and_flip ?b 0 2 False 1 statics_init = Some (Inr (8, ?b', ?st))"
    by code_simp
  have ne: "(8 :: size_t) \<noteq> BITMAP_ERROR"
    by (simp add: BITMAP_ERROR_def)
  from scan_and_flip_spec [OF h, of 0 2 False 1 statics_init] scan flip ne
  have "\<forall>n. bit_at ?b' n = (if 8 \<le> n \<and> n < 10 then True else bit_at ?b n)"
    by simp
  then have "bit_at ?b' 8" "bit_at ?b' 9" "bit_at ?b' 10 = bit_at ?b 10"
    by simp_all
  with h scan flip show ?thesis
    by simp
qed

section \<open>The buddy scan for one bit or more returns\<close>

text \<open>
  With \<open>cnt \<noteq> 0\<close> the outermost loop of the buddy branch reaches the walk, and
  the walk moves \<open>i\<close> forward by 1 to 512 in every pass until it returns or
  panics, as long as \<open>i\<close> cannot wrap around: the limit \<^verbatim>\<open>max + check_size\<close> of the
  walk is more than 512 below \<open>2 ^ 32\<close>.
\<close>

lemma offset_ladder_range:
  "offset_ladder x = Some y \<Longrightarrow> 1 \<le> unat y \<and> unat y \<le> 256"
  by (auto simp: offset_ladder_def split: if_splits)

lemma unat_add_no_wrap:
  "unat (a + b) = unat a + unat b" if "unat a + unat b < 2 ^ LENGTH('a)" for a b :: "'a::len word"
  using that by (simp only: unat_add_lem)

lemma buddy_walk_returns:
  assumes room: "unat max' + unat cs + 512 < 2 ^ 32" and bound: "unat bound \<le> 256"
  shows "\<exists>y. buddy_walk b v max' cs bound i off = Some y"
proof (induction "unat (max' + cs) - unat i" arbitrary: i off rule: less_induct)
  case less
  let ?lim = "max' + cs"
  from room have lim: "unat ?lim = unat max' + unat cs"
    by (intro unat_add_no_wrap) simp
  from bound have b2: "unat (bound * 2) = 2 * unat bound"
    by (simp add: unat_word_ariths)
  note unfold = buddy_walk.simps [of b v max' cs bound i off]
  show ?case
  proof (cases "?lim \<le> i")
    case True
    then show ?thesis by (simp add: unfold)
  next
    case False
    then have i: "unat i < unat ?lim"
      by (simp add: word_le_nat_alt)
    have step: "\<exists>y. buddy_walk b v max' cs bound (i + s) off' = Some y"
      if "1 \<le> unat s" and "unat s \<le> 512" for s off'
    proof -
      from i lim room that have "unat (i + s) = unat i + unat s"
        by (intro unat_add_no_wrap) simp
      with i that have "unat ?lim - unat (i + s) < unat ?lim - unat i"
        by simp
      then show ?thesis by (rule less)
    qed
    show ?thesis
    proof (cases "bitmap_test b i")
      case (Inl e)
      with False show ?thesis by (simp add: unfold)
    next
      case (Inr t)
      show ?thesis
      proof (cases t)
        case True
        show ?thesis
        proof (cases "occupied_run b max' cs i off")
          case (Inl e)
          with False Inr True show ?thesis by (simp add: unfold)
        next
          case run: (Inr x)
          show ?thesis
          proof (cases x)
            case None
            with False Inr True run show ?thesis by (simp add: unfold)
          next
            case (Some o1)
            show ?thesis
            proof (cases "offset_ladder o1")
              case None
              with False Inr True run Some show ?thesis by (simp add: unfold)
            next
              case lad: (Some o2)
              from offset_ladder_range [OF lad] have o2: "1 \<le> unat o2" "unat o2 \<le> 256"
                by simp_all
              show ?thesis
              proof (cases "bound * 2 < o2")
                case big: True
                from step [of o2 o2] o2 obtain y
                  where "buddy_walk b v max' cs bound (i + o2) o2 = Some y"
                  by auto
                with False Inr True run Some lad big show ?thesis
                  by (simp add: unfold)
              next
                case small: False
                with o2 b2 bound have "1 \<le> unat (bound * 2)" "unat (bound * 2) \<le> 512"
                  by (simp_all add: word_less_nat_alt)
                from step [OF this, of o2] obtain y
                  where "buddy_walk b v max' cs bound (i + bound * 2) o2 = Some y"
                  by auto
                with False Inr True run Some lad small show ?thesis
                  by (simp add: unfold)
              qed
            qed
          qed
        qed
      next
        case free: False
        show ?thesis
        proof (cases "bound = 0")
          case True
          with False Inr free show ?thesis by (subst unfold) simp
        next
          case nz: False
          then have "unat bound \<noteq> 0"
            by (simp add: unat_eq_0)
          with b2 bound have "1 \<le> unat (bound * 2)" "unat (bound * 2) \<le> 512"
            by simp_all
          from step [OF this, of off] obtain y
            where rec: "buddy_walk b v max' cs bound (i + bound * 2) off = Some y"
            by auto
          show ?thesis
          proof (cases "bitmap_contains b i (bound * 2) (\<not> v)")
            case (Inl e)
            with False Inr free nz show ?thesis by (simp add: unfold)
          next
            case c: (Inr c)
            with False Inr free nz rec show ?thesis by (cases c) (simp_all add: unfold)
          qed
        qed
      qed
    qed
  qed
qed

lemma buddy_bound_returns:
  assumes room: "unat max' + unat cs + 512 < 2 ^ 32" and "cnt \<noteq> 0"
  shows "bound \<in> buddy_bounds \<Longrightarrow> \<exists>y. buddy_bound b cnt v max' cs bound i off = Some y"
proof (induction "unat bound" arbitrary: bound rule: less_induct)
  case less
  let ?h = "bound div 2"
  note unfold = buddy_bound.simps [of b cnt v max' cs bound i off]
  from less.prems have h: "unat ?h \<le> 256" "unat ?h < unat bound"
    unfolding buddy_bounds_def by auto
  show ?case
  proof (cases "?h < cnt")
    case True
    with buddy_walk_returns [OF room h(1), of b v i off] show ?thesis
      by (simp add: unfold Let_def)
  next
    case False
    with \<open>cnt \<noteq> 0\<close> have "?h \<noteq> 0" by (auto simp: word_neq_0_conv)
    with buddy_bounds_halve [OF less.prems] have "?h \<in> buddy_bounds" by blast
    from less.hyps [OF h(2) this] False show ?thesis
      by (simp add: unfold Let_def)
  qed
qed

lemma buddy_scan_returns:
  assumes "cnt \<noteq> 0" and "unat (check_size st) + unat cnt + 1024 < 2 ^ 32"
  shows "bitmap_scan b start cnt value 3 st \<noteq> None"
proof -
  let ?st = "scan_enter st cnt"
  obtain i st1 where start: "buddy_start ?st = (i, st1)"
    by (cases "buddy_start ?st") auto
  then have "check_size st1 = check_size ?st"
    by (auto simp: buddy_start_def split: if_splits)
  moreover have "unat (check_size ?st) \<le> unat (check_size st) + unat cnt"
    using unat_add_le [of "check_size st" cnt] by (simp add: scan_enter_def)
  ultimately have "unat (512 :: size_t) + unat (check_size st1) + 512 < 2 ^ 32"
    using assms(2) by simp
  from buddy_bound_returns [OF this assms(1), of 512 b "value" i 0]
  obtain y where "buddy_bound b cnt value 512 (check_size st1) 512 i 0 = Some y"
    by (auto simp: buddy_bounds_def)
  with start show ?thesis
    by (simp add: bitmap_scan_def buddy_system_def Let_def split: sum.splits)
qed

lemma scan_returns:
  assumes "cnt \<noteq> 0" and "unat (check_size st) + unat cnt + 1024 < 2 ^ 32"
  shows "bitmap_scan b start cnt value pallocator st \<noteq> None"
  using assms scan_returns_unless_buddy [of pallocator b start cnt "value" st]
    buddy_scan_returns [of cnt st b start "value"]
  by (cases "pallocator = 3") simp_all

section \<open>The statics of the buddy strategy\<close>

subsection \<open>What one scan does to the statics\<close>




subsection \<open>Where the walk starts\<close>







subsection \<open>The accumulator and the start of the walk\<close>




end
